theory Spec2Isabelle
  imports Main "HOL-Library.Multiset" "HOL-Library.Sublist" "HOL-Library.Word"
begin

section \<open>The thread pool of \<open>thread_pool.h\<close> and \<open>thread_pool.cpp\<close>\<close>

text \<open>
  The pool is a shared object on which several threads run at once: the worker threads in
  \<open>workerLoop\<close>, any number of caller threads in \<open>enqueue\<close>, and the owning thread in
  \<open>~ThreadPool\<close>. The model is an interleaving of their statements: each thread has a
  control point, naming the statement of the source it executes next, and a step executes
  that one statement on the shared state. A step that cannot be taken (the thread is
  blocked, has returned, or would touch a pool that no longer exists) is \<open>None\<close>.
\<close>

subsection \<open>Packaged tasks and exceptions\<close>

text \<open>A packaged task is named by its position in the store of packaged tasks.\<close>

type_synonym tid = nat

datatype future_errc =
  broken_promise | future_already_retrieved | promise_already_satisfied | no_state

datatype exn =
    runtime_error string
  | future_error future_errc
  | thrown nat

text \<open>
  The callable bound by \<open>std::bind\<close> in \<open>enqueue\<close>: run on the state it captured by
  reference (\<open>'u\<close>) it leaves a new state and either returns a value (\<open>Inr\<close>) or throws
  (\<open>Inl\<close>). Its execution is one step of the worker that invokes it.
\<close>

type_synonym ('u, 'v) callable = "'u \<Rightarrow> 'u \<times> (exn + 'v)"

text \<open>
  \<open>std::packaged_task<ReturnT()>\<close>, created by \<open>make_shared\<close> in \<open>enqueue\<close>: the callable
  and the shared state that its future reads. \<open>shared\<close> is \<open>None\<close> until the task has
  been invoked (or abandoned); \<open>operator()\<close> stores the value returned or the exception
  thrown and lets no exception of the callable escape.
\<close>

record ('u, 'v) packaged_task =
  fn :: "('u, 'v) callable"
  shared :: "(exn + 'v) option"

subsection \<open>Control points\<close>

text \<open>The statements of \<open>workerLoop\<close> (lines of \<open>thread_pool.cpp\<close>).\<close>

datatype wpc =
    WLock                 \<comment> \<open>28-30: \<open>task\<close> is empty; about to lock \<open>mutex_\<close>\<close>
  | WEmpty                \<comment> \<open>31: \<open>if (tasks_.empty())\<close>\<close>
  | WWait                 \<comment> \<open>32: blocked in \<open>cv_.wait(lock)\<close>, mutex released\<close>
  | WWake                 \<comment> \<open>32: unblocked, \<open>wait\<close> is about to lock \<open>mutex_\<close> again\<close>
  | WStop                 \<comment> \<open>34: \<open>if (stop_)\<close>\<close>
  | WPop                  \<comment> \<open>37-40: \<open>if (!tasks_.empty())\<close> move the front out and pop\<close>
  | WUnlock "tid option"  \<comment> \<open>41: end of the locked block\<close>
  | WCall "tid option"    \<comment> \<open>42-44: \<open>if (task) task()\<close>\<close>
  | WExit                 \<comment> \<open>35: \<open>return\<close>; the thread function has returned\<close>

text \<open>An element of \<open>workers_\<close>: a \<open>std::thread\<close> and the thread it started.\<close>

record worker =
  pc :: wpc
  joinable :: bool

text \<open>The statements of \<open>enqueue\<close> (lines of \<open>thread_pool.h\<close>), for one caller thread.\<close>

datatype ('u, 'v) cpc =
    CIdle
  | CLock "('u, 'v) callable"    \<comment> \<open>21-26: task made; about to lock \<open>mutex_\<close>\<close>
  | CStop "('u, 'v) callable"    \<comment> \<open>27: \<open>if (stop_)\<close>\<close>
  | CPush "('u, 'v) callable"    \<comment> \<open>30: \<open>tasks_.emplace\<close>\<close>
  | CUnlock tid                  \<comment> \<open>31: end of the locked block\<close>
  | CNotify tid                  \<comment> \<open>32: \<open>cv_.notify_one()\<close>\<close>
  | CReturn tid                  \<comment> \<open>33: \<open>return task->get_future()\<close>\<close>
  | CDone "exn + tid"            \<comment> \<open>the call has thrown, or returned the future of a task\<close>

text \<open>The statements of \<open>~ThreadPool\<close> (lines of \<open>thread_pool.cpp\<close>).\<close>

datatype dpc =
    DLive             \<comment> \<open>the destructor has not been entered\<close>
  | DNotify           \<comment> \<open>14: \<open>cv_.notify_all()\<close>\<close>
  | DDetach nat       \<comment> \<open>15-19: the loop over \<open>workers_\<close>, at this index\<close>
  | DGone             \<comment> \<open>20: returned; members destroyed, storage reclaimed\<close>

datatype thread = Caller nat | Worker nat

subsection \<open>The pool\<close>

text \<open>
  The members of \<open>ThreadPool\<close> are \<open>workers\<close>, \<open>tasks\<close>, \<open>mutex\<close> (its owner) and \<open>stop\<close>;
  the threads blocked on \<open>cv_\<close> are the workers at \<open>WWait\<close>. Around them: the packaged
  tasks on the heap (\<open>store\<close>), the caller threads, the owning thread, and the state the
  callables act on (\<open>env\<close>). \<open>pushed\<close> and \<open>popped\<close> are history variables: the steps
  append to them at \<open>tasks_.emplace\<close> and \<open>tasks_.pop\<close> and never read them.
\<close>

record ('u, 'v) pool =
  workers :: "worker list"
  tasks :: "tid list"
  mutex :: "thread option"
  stop :: bool
  store :: "('u, 'v) packaged_task list"
  callers :: "nat \<Rightarrow> ('u, 'v) cpc"
  owner :: dpc
  env :: 'u
  pushed :: "tid list"
  popped :: "tid list"

subsection \<open>Construction and \<open>size\<close>\<close>

text \<open>
  The loop of the constructor, \<open>for (i = 0; i < threadCount; ++i) workers_.emplace_back(...)\<close>.
  \<open>std::size_t\<close> is read as \<open>nat\<close>: \<open>i\<close> stays below \<open>threadCount\<close>, so nothing wraps. Every
  thread starts at the top of \<open>workerLoop\<close>.
\<close>

function spawn :: "nat \<Rightarrow> nat \<Rightarrow> worker list \<Rightarrow> worker list" where
  "spawn i threadCount ws =
     (if i < threadCount
      then spawn (Suc i) threadCount (ws @ [\<lparr>pc = WLock, joinable = True\<rparr>])
      else ws)"
  by pat_completeness auto
termination
  by (relation "measure (\<lambda>(i, n, ws). n - i)") auto

declare spawn.simps [simp del]

definition ThreadPool :: "nat \<Rightarrow> 'u \<Rightarrow> ('u, 'v) pool" where
  "ThreadPool threadCount u =
     (let threadCount = (if threadCount = 0 then 1 else threadCount) in
      \<lparr>workers = spawn 0 threadCount [], tasks = [], mutex = None, stop = False,
       store = [], callers = (\<lambda>c. CIdle), owner = DLive, env = u,
       pushed = [], popped = []\<rparr>)"

definition size_pool :: "('u, 'v) pool \<Rightarrow> nat" where
  "size_pool s = length (workers s)"

subsection \<open>\<open>workerLoop\<close>\<close>

definition set_pc :: "nat \<Rightarrow> wpc \<Rightarrow> ('u, 'v) pool \<Rightarrow> ('u, 'v) pool" where
  "set_pc i p s = s\<lparr>workers := (workers s)[i := (workers s ! i)\<lparr>pc := p\<rparr>]\<rparr>"

text \<open>
  \<open>task()\<close> on the closure \<open>[task]() { (*task)(); }\<close>: the packaged task runs its callable
  and stores the outcome. A packaged task invoked a second time throws
  \<open>promise_already_satisfied\<close>, which nothing in \<open>workerLoop\<close> catches: the program is
  terminated, and there is no next state.
\<close>

definition invoke :: "tid \<Rightarrow> ('u, 'v) pool \<Rightarrow> ('u, 'v) pool option" where
  "invoke t s =
     (if t < length (store s) \<and> shared (store s ! t) = None
      then (case fn (store s ! t) (env s) of
              (u, r) \<Rightarrow> Some (s\<lparr>env := u, store := (store s)[t := (store s ! t)\<lparr>shared := Some r\<rparr>]\<rparr>))
      else None)"

text \<open>
  One statement of worker \<open>i\<close>. Once the pool is gone only the call of a task already
  moved out of the queue is defined, since \<open>task\<close> is a local of the thread; every other
  statement reads a member of the destroyed pool.
\<close>

definition calling :: "wpc \<Rightarrow> bool" where
  "calling p = (case p of WCall task \<Rightarrow> True | _ \<Rightarrow> False)"

definition workerLoop :: "nat \<Rightarrow> ('u, 'v) pool \<Rightarrow> ('u, 'v) pool option" where
  "workerLoop i s =
     (if length (workers s) \<le> i then None
      else if owner s = DGone \<and> \<not> calling (pc (workers s ! i)) then None
      else case pc (workers s ! i) of
        WLock \<Rightarrow>
          if mutex s = None then Some (set_pc i WEmpty (s\<lparr>mutex := Some (Worker i)\<rparr>))
          else None
      | WEmpty \<Rightarrow>
          if tasks s = [] then Some (set_pc i WWait (s\<lparr>mutex := None\<rparr>))
          else Some (set_pc i WStop s)
      | WWait \<Rightarrow> None
      | WWake \<Rightarrow>
          if mutex s = None then Some (set_pc i WStop (s\<lparr>mutex := Some (Worker i)\<rparr>))
          else None
      | WStop \<Rightarrow>
          if stop s then Some (set_pc i WExit (s\<lparr>mutex := None\<rparr>))
          else Some (set_pc i WPop s)
      | WPop \<Rightarrow>
          (case tasks s of
             [] \<Rightarrow> Some (set_pc i (WUnlock None) s)
           | t # q \<Rightarrow>
               Some (set_pc i (WUnlock (Some t)) (s\<lparr>tasks := q, popped := popped s @ [t]\<rparr>)))
      | WUnlock task \<Rightarrow> Some (set_pc i (WCall task) (s\<lparr>mutex := None\<rparr>))
      | WCall None \<Rightarrow> Some (set_pc i WLock s)
      | WCall (Some t) \<Rightarrow> map_option (set_pc i WLock) (invoke t s)
      | WExit \<Rightarrow> None)"

text \<open>A wait on a condition variable may return without any notification.\<close>

definition spurious :: "nat \<Rightarrow> ('u, 'v) pool \<Rightarrow> ('u, 'v) pool option" where
  "spurious i s =
     (if i < length (workers s) \<and> pc (workers s ! i) = WWait \<and> owner s \<noteq> DGone
      then Some (set_pc i WWake s) else None)"

subsection \<open>\<open>enqueue\<close>\<close>

definition set_caller :: "nat \<Rightarrow> ('u, 'v) cpc \<Rightarrow> ('u, 'v) pool \<Rightarrow> ('u, 'v) pool" where
  "set_caller c p s = s\<lparr>callers := (callers s)(c := p)\<rparr>"

text \<open>
  Caller \<open>c\<close> enters \<open>enqueue(fn, args...)\<close>: the packaged task is made, known to this
  thread only until it is put in the queue.
\<close>

definition call :: "nat \<Rightarrow> ('u, 'v) callable \<Rightarrow> ('u, 'v) pool \<Rightarrow> ('u, 'v) pool option" where
  "call c f s =
     (if owner s = DGone then None
      else case callers s c of
        CIdle \<Rightarrow> Some (set_caller c (CLock f) s)
      | CDone r \<Rightarrow> Some (set_caller c (CLock f) s)
      | _ \<Rightarrow> None)"

definition waiting :: "('u, 'v) pool \<Rightarrow> bool" where
  "waiting s = list_ex (\<lambda>w. pc w = WWait) (workers s)"

text \<open>
  One statement of caller \<open>c\<close> inside \<open>enqueue\<close>. The exception leaves the locked block, so
  the \<open>unique_lock\<close> releases the mutex. At \<open>tasks_.emplace\<close> the packaged task enters the
  store, under the next free name. \<open>notify_one\<close> is this step only when no worker is
  blocked on \<open>cv_\<close>; otherwise it is a \<open>notify_one\<close> step, which names the worker unblocked.
\<close>

definition enqueue :: "nat \<Rightarrow> ('u, 'v) pool \<Rightarrow> ('u, 'v) pool option" where
  "enqueue c s =
     (if owner s = DGone then None
      else case callers s c of
        CLock f \<Rightarrow>
          if mutex s = None then Some (set_caller c (CStop f) (s\<lparr>mutex := Some (Caller c)\<rparr>))
          else None
      | CStop f \<Rightarrow>
          if stop s
          then Some (set_caller c (CDone (Inl (runtime_error ''ThreadPool is stopping'')))
                       (s\<lparr>mutex := None\<rparr>))
          else Some (set_caller c (CPush f) s)
      | CPush f \<Rightarrow>
          (let t = length (store s) in
           Some (set_caller c (CUnlock t)
                   (s\<lparr>store := store s @ [\<lparr>fn = f, shared = None\<rparr>],
                      tasks := tasks s @ [t], pushed := pushed s @ [t]\<rparr>)))
      | CUnlock t \<Rightarrow> Some (set_caller c (CNotify t) (s\<lparr>mutex := None\<rparr>))
      | CNotify t \<Rightarrow> if waiting s then None else Some (set_caller c (CReturn t) s)
      | CReturn t \<Rightarrow> Some (set_caller c (CDone (Inr t)) s)
      | _ \<Rightarrow> None)"

definition notify_one :: "nat \<Rightarrow> nat \<Rightarrow> ('u, 'v) pool \<Rightarrow> ('u, 'v) pool option" where
  "notify_one c i s =
     (if owner s = DGone then None
      else case callers s c of
        CNotify t \<Rightarrow>
          if i < length (workers s) \<and> pc (workers s ! i) = WWait
          then Some (set_caller c (CReturn t) (set_pc i WWake s))
          else None
      | _ \<Rightarrow> None)"

subsection \<open>\<open>~ThreadPool\<close>\<close>

definition notified :: "worker \<Rightarrow> worker" where
  "notified w = (if pc w = WWait then w\<lparr>pc := WWake\<rparr> else w)"

text \<open>
  The closures still in \<open>tasks_\<close> are destroyed with it, and with each the packaged task
  it holds: a packaged task destroyed before it was invoked stores \<open>broken_promise\<close> in
  its shared state.
\<close>

fun abandon :: "tid list \<Rightarrow> ('u, 'v) packaged_task list \<Rightarrow> ('u, 'v) packaged_task list" where
  "abandon [] h = h"
| "abandon (t # ts) h =
     abandon ts
       (if t < length h \<and> shared (h ! t) = None
        then h[t := (h ! t)\<lparr>shared := Some (Inl (future_error broken_promise))\<rparr>]
        else h)"

text \<open>
  One statement of the owning thread inside the destructor. \<open>stop_ = true\<close> and
  \<open>notify_all\<close> are executed as they stand, with no lock taken; the loop detaches every
  joinable thread and waits for none; after the body the members are destroyed.
\<close>

definition ThreadPool_dtor :: "('u, 'v) pool \<Rightarrow> ('u, 'v) pool option" where
  "ThreadPool_dtor s =
     (case owner s of
        DLive \<Rightarrow> Some (s\<lparr>stop := True, owner := DNotify\<rparr>)
      | DNotify \<Rightarrow> Some (s\<lparr>workers := map notified (workers s), owner := DDetach 0\<rparr>)
      | DDetach j \<Rightarrow>
          if j < length (workers s)
          then Some (s\<lparr>workers :=
                         (workers s)[j := (if joinable (workers s ! j)
                                           then (workers s ! j)\<lparr>joinable := False\<rparr>
                                           else workers s ! j)],
                       owner := DDetach (Suc j)\<rparr>)
          else Some (s\<lparr>store := abandon (tasks s) (store s), tasks := [], owner := DGone\<rparr>)
      | DGone \<Rightarrow> None)"

subsection \<open>Executions\<close>

datatype ('u, 'v) action =
    Call nat "('u, 'v) callable"  \<comment> \<open>caller \<open>c\<close> enters \<open>enqueue\<close> with this callable\<close>
  | Enq nat                       \<comment> \<open>caller \<open>c\<close> executes its next statement of \<open>enqueue\<close>\<close>
  | Notify nat nat                \<comment> \<open>the \<open>notify_one\<close> of caller \<open>c\<close> unblocks worker \<open>i\<close>\<close>
  | Loop nat                      \<comment> \<open>worker \<open>i\<close> executes its next statement of \<open>workerLoop\<close>\<close>
  | Spurious nat                  \<comment> \<open>the wait of worker \<open>i\<close> returns unnotified\<close>
  | Dtor                          \<comment> \<open>the owner executes its next statement of \<open>~ThreadPool\<close>\<close>

fun step :: "('u, 'v) action \<Rightarrow> ('u, 'v) pool \<Rightarrow> ('u, 'v) pool option" where
  "step (Call c f) s = call c f s"
| "step (Enq c) s = enqueue c s"
| "step (Notify c i) s = notify_one c i s"
| "step (Loop i) s = workerLoop i s"
| "step (Spurious i) s = spurious i s"
| "step Dtor s = ThreadPool_dtor s"

fun run :: "('u, 'v) action list \<Rightarrow> ('u, 'v) pool \<Rightarrow> ('u, 'v) pool option" where
  "run [] s = Some s"
| "run (a # as) s = (case step a s of None \<Rightarrow> None | Some s' \<Rightarrow> run as s')"

subsection \<open>Futures\<close>

text \<open>
  The \<open>std::future\<close> returned by \<open>enqueue\<close> refers to the shared state of one packaged
  task, or to none (then \<open>valid()\<close> is false). \<open>get\<close>, which the tests call, blocks until
  the shared state is ready, returns the value or throws the stored exception, and
  releases the shared state: the future is left invalid. \<open>wait\<close> blocks until the shared
  state is ready and returns nothing; the future stays as it is. Either call on an
  invalid future is outside the contract of \<open>std::future\<close>: no result is defined for it.
\<close>

type_synonym future = "tid option"

datatype 'v got = Blocks | Returns 'v | Raises exn | Undefined

definition get_future :: "tid \<Rightarrow> future" where
  "get_future t = Some t"

definition get :: "future \<Rightarrow> ('u, 'v) packaged_task list \<Rightarrow> 'v got \<times> future" where
  "get h st =
     (case h of
        None \<Rightarrow> (Undefined, None)
      | Some t \<Rightarrow>
          (if length st \<le> t then (Undefined, None)
           else case shared (st ! t) of
             None \<Rightarrow> (Blocks, Some t)
           | Some (Inr v) \<Rightarrow> (Returns v, None)
           | Some (Inl e) \<Rightarrow> (Raises e, None)))"

definition wait :: "future \<Rightarrow> ('u, 'v) packaged_task list \<Rightarrow> unit got \<times> future" where
  "wait h st =
     (case h of
        None \<Rightarrow> (Undefined, None)
      | Some t \<Rightarrow>
          (if length st \<le> t then (Undefined, None)
           else case shared (st ! t) of
             None \<Rightarrow> (Blocks, Some t)
           | Some r \<Rightarrow> (Returns (), Some t)))"

subsection \<open>The callables of the tests\<close>

text \<open>
  \<open>test_thread_pool.cpp\<close> submits two kinds of callable: one adds one to an atomic
  counter (\<open>counter.fetch_add(1)\<close> on a \<open>std::atomic<int>\<close>, a 32-bit integer on which
  \<open>fetch_add\<close> wraps around), one sets the flag \<open>finished\<close> when it is done.
\<close>

definition fetch_add_1 :: "(32 word, unit) callable" where
  "fetch_add_1 counter = (counter + 1, Inr ())"

definition store_finished :: "(bool, unit) callable" where
  "store_finished finished = (True, Inr ())"

subsection \<open>Invariants of the executions\<close>

text \<open>
  The order of the queue: the tasks are named in the order of their \<open>emplace\<close>, and as
  long as the pool exists the tasks put in are those taken out followed by the queue.
\<close>

definition named :: "('u, 'v) pool \<Rightarrow> bool" where
  "named s \<longleftrightarrow> pushed s = [0..<length (store s)]"

definition fifo :: "('u, 'v) pool \<Rightarrow> bool" where
  "fifo s \<longleftrightarrow>
     prefix (popped s) (pushed s) \<and> (owner s \<noteq> DGone \<longrightarrow> popped s @ tasks s = pushed s)"

text \<open>The task a worker has moved out of the queue and not yet invoked.\<close>

definition holding :: "wpc \<Rightarrow> tid list" where
  "holding p =
     (case p of WUnlock (Some t) \<Rightarrow> [t] | WCall (Some t) \<Rightarrow> [t] | _ \<Rightarrow> [])"

definition held :: "worker list \<Rightarrow> tid multiset" where
  "held ws = sum_list (map (\<lambda>w. mset (holding (pc w))) ws)"

definition pending :: "('u, 'v) pool \<Rightarrow> tid multiset" where
  "pending s = mset (tasks s) + held (workers s)"

text \<open>
  No task is in two places: each task in the queue or in the hands of a worker is there
  once, exists, and has not been invoked.
\<close>

definition once :: "('u, 'v) pool \<Rightarrow> bool" where
  "once s \<longleftrightarrow>
     (\<forall>t. count (pending s) t \<le> 1) \<and>
     (\<forall>t. t \<in># pending s \<longrightarrow> t < length (store s) \<and> shared (store s ! t) = None)"

text \<open>
  Mutual exclusion: the control points between \<open>unique_lock lock(mutex_)\<close> and the end of
  the locked block, in \<open>workerLoop\<close> and in \<open>enqueue\<close>. A thread is at one of them exactly
  when it owns the mutex.
\<close>

definition in_block :: "wpc \<Rightarrow> bool" where
  "in_block p =
     (case p of WEmpty \<Rightarrow> True | WStop \<Rightarrow> True | WPop \<Rightarrow> True | WUnlock task \<Rightarrow> True
      | _ \<Rightarrow> False)"

definition caller_in_block :: "('u, 'v) cpc \<Rightarrow> bool" where
  "caller_in_block p =
     (case p of CStop f \<Rightarrow> True | CPush f \<Rightarrow> True | CUnlock t \<Rightarrow> True | _ \<Rightarrow> False)"

definition exclusive :: "('u, 'v) pool \<Rightarrow> bool" where
  "exclusive s \<longleftrightarrow>
     (\<forall>i < length (workers s). in_block (pc (workers s ! i)) \<longleftrightarrow> mutex s = Some (Worker i)) \<and>
     (\<forall>c. caller_in_block (callers s c) \<longleftrightarrow> mutex s = Some (Caller c))"

section \<open>The steps, case by case\<close>

lemma calling_simps [simp]:
  "\<not> calling WLock" "\<not> calling WEmpty" "\<not> calling WWait" "\<not> calling WWake"
  "\<not> calling WStop" "\<not> calling WPop" "\<not> calling (WUnlock task)" "calling (WCall task)"
  "\<not> calling WExit"
  by (simp_all add: calling_def)

lemma set_pc_simps [simp]:
  "workers (set_pc i p s) = (workers s)[i := (workers s ! i)\<lparr>pc := p\<rparr>]"
  "tasks (set_pc i p s) = tasks s"
  "mutex (set_pc i p s) = mutex s"
  "stop (set_pc i p s) = stop s"
  "store (set_pc i p s) = store s"
  "callers (set_pc i p s) = callers s"
  "owner (set_pc i p s) = owner s"
  "env (set_pc i p s) = env s"
  "pushed (set_pc i p s) = pushed s"
  "popped (set_pc i p s) = popped s"
  by (simp_all add: set_pc_def)

lemma set_caller_simps [simp]:
  "workers (set_caller c p s) = workers s"
  "tasks (set_caller c p s) = tasks s"
  "mutex (set_caller c p s) = mutex s"
  "stop (set_caller c p s) = stop s"
  "store (set_caller c p s) = store s"
  "callers (set_caller c p s) = (callers s)(c := p)"
  "owner (set_caller c p s) = owner s"
  "env (set_caller c p s) = env s"
  "pushed (set_caller c p s) = pushed s"
  "popped (set_caller c p s) = popped s"
  by (simp_all add: set_caller_def)

lemma workerLoop_cases [consumes 1, case_names call_empty call_task lock wait nonempty wake exit continue pop_empty pop unlock]:
  assumes "workerLoop i s = Some s'"
  obtains
    "i < length (workers s)" "pc (workers s ! i) = WCall None" "s' = set_pc i WLock s"
  | t where "i < length (workers s)" "pc (workers s ! i) = WCall (Some t)"
      "t < length (store s)" "shared (store s ! t) = None"
      "s' = set_pc i WLock (s\<lparr>env := fst (fn (store s ! t) (env s)),
             store := (store s)[t := (store s ! t)\<lparr>shared := Some (snd (fn (store s ! t) (env s)))\<rparr>]\<rparr>)"
  | "i < length (workers s)" "owner s \<noteq> DGone" "pc (workers s ! i) = WLock" "mutex s = None"
      "s' = set_pc i WEmpty (s\<lparr>mutex := Some (Worker i)\<rparr>)"
  | "i < length (workers s)" "owner s \<noteq> DGone" "pc (workers s ! i) = WEmpty" "tasks s = []"
      "s' = set_pc i WWait (s\<lparr>mutex := None\<rparr>)"
  | "i < length (workers s)" "owner s \<noteq> DGone" "pc (workers s ! i) = WEmpty" "tasks s \<noteq> []"
      "s' = set_pc i WStop s"
  | "i < length (workers s)" "owner s \<noteq> DGone" "pc (workers s ! i) = WWake" "mutex s = None"
      "s' = set_pc i WStop (s\<lparr>mutex := Some (Worker i)\<rparr>)"
  | "i < length (workers s)" "owner s \<noteq> DGone" "pc (workers s ! i) = WStop" "stop s"
      "s' = set_pc i WExit (s\<lparr>mutex := None\<rparr>)"
  | "i < length (workers s)" "owner s \<noteq> DGone" "pc (workers s ! i) = WStop" "\<not> stop s"
      "s' = set_pc i WPop s"
  | "i < length (workers s)" "owner s \<noteq> DGone" "pc (workers s ! i) = WPop" "tasks s = []"
      "s' = set_pc i (WUnlock None) s"
  | t q where "i < length (workers s)" "owner s \<noteq> DGone" "pc (workers s ! i) = WPop"
      "tasks s = t # q"
      "s' = set_pc i (WUnlock (Some t)) (s\<lparr>tasks := q, popped := popped s @ [t]\<rparr>)"
  | task where "i < length (workers s)" "owner s \<noteq> DGone" "pc (workers s ! i) = WUnlock task"
      "s' = set_pc i (WCall task) (s\<lparr>mutex := None\<rparr>)"
proof -
  from assms have i: "i < length (workers s)"
    by (simp add: workerLoop_def split: if_splits)
  show ?thesis
  proof (cases "pc (workers s ! i)")
    case WLock
    with assms i that(3) show ?thesis by (simp add: workerLoop_def split: if_splits)
  next
    case WEmpty
    with assms i that(4,5) show ?thesis by (simp add: workerLoop_def split: if_splits)
  next
    case WWait
    with assms i show ?thesis by (simp add: workerLoop_def split: if_splits)
  next
    case WWake
    with assms i that(6) show ?thesis by (simp add: workerLoop_def split: if_splits)
  next
    case WStop
    with assms i that(7,8) show ?thesis by (simp add: workerLoop_def split: if_splits)
  next
    case WPop
    with assms i that(9,10) show ?thesis
      by (simp add: workerLoop_def split: if_splits list.splits)
  next
    case (WUnlock task)
    with assms i that(11) show ?thesis by (simp add: workerLoop_def split: if_splits)
  next
    case (WCall task)
    show ?thesis
    proof (cases task)
      case None
      with WCall assms i that(1) show ?thesis by (simp add: workerLoop_def)
    next
      case (Some t)
      with WCall assms i that(2) [of t] show ?thesis
        by (auto simp: workerLoop_def invoke_def split: if_splits prod.splits)
    qed
  next
    case WExit
    with assms i show ?thesis by (simp add: workerLoop_def split: if_splits)
  qed
qed

lemma enqueue_cases [consumes 1, case_names lock throw continue push unlock notify return]:
  assumes "enqueue c s = Some s'"
  obtains
    f where "owner s \<noteq> DGone" "callers s c = CLock f" "mutex s = None"
      "s' = set_caller c (CStop f) (s\<lparr>mutex := Some (Caller c)\<rparr>)"
  | f where "owner s \<noteq> DGone" "callers s c = CStop f" "stop s"
      "s' = set_caller c (CDone (Inl (runtime_error ''ThreadPool is stopping''))) (s\<lparr>mutex := None\<rparr>)"
  | f where "owner s \<noteq> DGone" "callers s c = CStop f" "\<not> stop s"
      "s' = set_caller c (CPush f) s"
  | f where "owner s \<noteq> DGone" "callers s c = CPush f"
      "s' = set_caller c (CUnlock (length (store s)))
              (s\<lparr>store := store s @ [\<lparr>fn = f, shared = None\<rparr>],
                 tasks := tasks s @ [length (store s)],
                 pushed := pushed s @ [length (store s)]\<rparr>)"
  | t where "owner s \<noteq> DGone" "callers s c = CUnlock t"
      "s' = set_caller c (CNotify t) (s\<lparr>mutex := None\<rparr>)"
  | t where "owner s \<noteq> DGone" "callers s c = CNotify t" "\<not> waiting s"
      "s' = set_caller c (CReturn t) s"
  | t where "owner s \<noteq> DGone" "callers s c = CReturn t"
      "s' = set_caller c (CDone (Inr t)) s"
proof -
  from assms have g: "owner s \<noteq> DGone"
    by (simp add: enqueue_def split: if_splits)
  show ?thesis
  proof (cases "callers s c")
    case CIdle
    with assms g show ?thesis by (simp add: enqueue_def)
  next
    case (CLock f)
    with assms g that(1) show ?thesis by (simp add: enqueue_def split: if_splits)
  next
    case (CStop f)
    with assms g that(2,3) show ?thesis by (simp add: enqueue_def split: if_splits)
  next
    case (CPush f)
    with assms g that(4) show ?thesis by (simp add: enqueue_def Let_def)
  next
    case (CUnlock t)
    with assms g that(5) show ?thesis by (simp add: enqueue_def)
  next
    case (CNotify t)
    with assms g that(6) show ?thesis by (simp add: enqueue_def split: if_splits)
  next
    case (CReturn t)
    with assms g that(7) show ?thesis by (simp add: enqueue_def)
  next
    case (CDone r)
    with assms g show ?thesis by (simp add: enqueue_def)
  qed
qed

lemma dtor_cases [consumes 1, case_names stop notify_all detach members]:
  assumes "ThreadPool_dtor s = Some s'"
  obtains
    "owner s = DLive" "s' = s\<lparr>stop := True, owner := DNotify\<rparr>"
  | "owner s = DNotify" "s' = s\<lparr>workers := map notified (workers s), owner := DDetach 0\<rparr>"
  | j where "owner s = DDetach j" "j < length (workers s)"
      "s' = s\<lparr>workers := (workers s)[j := (workers s ! j)\<lparr>joinable := False\<rparr>],
               owner := DDetach (Suc j)\<rparr>"
  | j where "owner s = DDetach j" "length (workers s) \<le> j"
      "s' = s\<lparr>store := abandon (tasks s) (store s), tasks := [], owner := DGone\<rparr>"
proof (cases "owner s")
  case DLive
  with assms that(1) show ?thesis by (simp add: ThreadPool_dtor_def)
next
  case DNotify
  with assms that(2) show ?thesis by (simp add: ThreadPool_dtor_def)
next
  case (DDetach j)
  show ?thesis
  proof (cases "j < length (workers s)")
    case True
    have "(if joinable (workers s ! j) then (workers s ! j)\<lparr>joinable := False\<rparr> else workers s ! j)
        = (workers s ! j)\<lparr>joinable := False\<rparr>"
      by simp
    with True DDetach assms that(3) [of j] show ?thesis
      by (simp add: ThreadPool_dtor_def)
  next
    case False
    with DDetach assms that(4) [of j] show ?thesis
      by (simp add: ThreadPool_dtor_def)
  qed
next
  case DGone
  with assms show ?thesis by (simp add: ThreadPool_dtor_def)
qed

lemma call_cases [consumes 1]:
  assumes "call c f s = Some s'"
  obtains "owner s \<noteq> DGone" "callers s c = CIdle \<or> (\<exists>r. callers s c = CDone r)"
    "s' = set_caller c (CLock f) s"
  using assms by (auto simp: call_def split: if_splits cpc.splits)

lemma notify_one_cases [consumes 1]:
  assumes "notify_one c i s = Some s'"
  obtains t where "owner s \<noteq> DGone" "callers s c = CNotify t" "i < length (workers s)"
    "pc (workers s ! i) = WWait" "s' = set_caller c (CReturn t) (set_pc i WWake s)"
  using assms by (auto simp: notify_one_def split: if_splits cpc.splits)

lemma spurious_cases [consumes 1]:
  assumes "spurious i s = Some s'"
  obtains "owner s \<noteq> DGone" "i < length (workers s)" "pc (workers s ! i) = WWait"
    "s' = set_pc i WWake s"
  using assms by (auto simp: spurious_def split: if_splits)

lemmas exec =
  ThreadPool_def spawn.simps call_def enqueue_def set_caller_def set_pc_def workerLoop_def
  invoke_def waiting_def notify_one_def spurious_def ThreadPool_dtor_def notified_def Let_def
  fetch_add_1_def store_finished_def

section \<open>Construction and size\<close>

lemma length_spawn: "length (spawn i n ws) = length ws + (n - i)"
proof (induction i n ws rule: spawn.induct)
  case (1 i n ws)
  show ?case
  proof (cases "i < n")
    case True
    with 1 show ?thesis by (simp add: spawn.simps [of i n ws])
  next
    case False
    then show ?thesis by (simp add: spawn.simps [of i n ws])
  qed
qed

lemma size_ThreadPool: "size_pool (ThreadPool k u) = (if k = 0 then 1 else k)"
  by (simp add: size_pool_def ThreadPool_def length_spawn)

lemma size_workerLoop: "workerLoop i s = Some s' \<Longrightarrow> size_pool s' = size_pool s"
  by (auto simp: workerLoop_def size_pool_def set_pc_def invoke_def
      split: if_splits wpc.splits option.splits list.splits prod.splits)

lemma size_enqueue: "enqueue c s = Some s' \<Longrightarrow> size_pool s' = size_pool s"
  by (auto simp: enqueue_def size_pool_def set_caller_def Let_def
      split: if_splits cpc.splits)

lemma size_step: "step a s = Some s' \<Longrightarrow> size_pool s' = size_pool s"
proof (cases a)
  case (Call c f)
  assume "step a s = Some s'"
  with Call show ?thesis
    by (auto simp: call_def size_pool_def set_caller_def split: if_splits cpc.splits)
next
  case (Enq c)
  assume "step a s = Some s'"
  with Enq show ?thesis by (simp add: size_enqueue)
next
  case (Notify c i)
  assume "step a s = Some s'"
  with Notify show ?thesis
    by (auto simp: notify_one_def size_pool_def set_caller_def set_pc_def
        split: if_splits cpc.splits)
next
  case (Loop i)
  assume "step a s = Some s'"
  with Loop show ?thesis by (simp add: size_workerLoop)
next
  case (Spurious i)
  assume "step a s = Some s'"
  with Spurious show ?thesis
    by (auto simp: spurious_def size_pool_def set_pc_def split: if_splits)
next
  case Dtor
  assume "step a s = Some s'"
  with Dtor show ?thesis
    by (auto simp: ThreadPool_dtor_def size_pool_def split: if_splits dpc.splits)
qed

lemma size_run: "run as s = Some s' \<Longrightarrow> size_pool s' = size_pool s"
proof (induction as arbitrary: s)
  case Nil
  then show ?case by simp
next
  case (Cons a as)
  then obtain s1 where "step a s = Some s1" and "run as s1 = Some s'"
    by (auto split: option.splits)
  with Cons.IH [of s1] size_step [of a s s1] show ?case by simp
qed

text \<open>
  C5. A pool constructed with a requested count \<open>k\<close> has \<open>k\<close> workers, or one when \<open>k\<close> is
  zero, and \<open>size()\<close> returns that number in every state the pool reaches afterwards,
  whatever the workers, the callers and the destructor do.
\<close>

theorem size_fixed:
  "run as (ThreadPool k u) = Some s \<Longrightarrow> size_pool s = (if k = 0 then 1 else k)"
  using size_run [of as "ThreadPool k u" s] by (simp add: size_ThreadPool)

theorem size_fixed_witness:
  "map_option size_pool
     (run [Loop 0, Loop 0, Call 0 fetch_add_1, Enq 0, Dtor] (ThreadPool 0 0 :: (32 word, unit) pool)) = Some 1"
proof -
  obtain s where r: "run [Loop 0, Loop 0, Call 0 fetch_add_1, Enq 0, Dtor] (ThreadPool 0 0 :: (32 word, unit) pool) = Some s"
    by (simp add: exec)
  from size_fixed [OF r] r show ?thesis by simp
qed

section \<open>Invariants\<close>

lemma run_invariant:
  assumes "run as s = Some s'" and "I s"
    and "\<And>a s s'. a \<in> set as \<Longrightarrow> I s \<Longrightarrow> step a s = Some s' \<Longrightarrow> I s'"
  shows "I s'"
  using assms
proof (induction as arbitrary: s)
  case Nil
  then show ?case by simp
next
  case (Cons a as)
  from Cons.prems(1) obtain s1 where 1: "step a s = Some s1" and 2: "run as s1 = Some s'"
    by (auto split: option.splits)
  have "I s1" using Cons.prems(3) [of a s s1] Cons.prems(2) 1 by simp
  show ?case
  proof (rule Cons.IH [OF 2 \<open>I s1\<close>])
    fix b t t'
    assume "b \<in> set as" "I t" "step b t = Some t'"
    then show "I t'" using Cons.prems(3) [of b t t'] by simp
  qed
qed

lemma run_append:
  "run (as @ bs) s = (case run as s of None \<Rightarrow> None | Some s' \<Rightarrow> run bs s')"
  by (induction as arbitrary: s) (auto split: option.splits)

lemma length_abandon [simp]: "length (abandon ts h) = length h"
  by (induction ts arbitrary: h) auto

lemma prefix_pop: "xs @ t # q = ys \<Longrightarrow> prefix (xs @ [t]) ys"
  by (auto simp: prefix_def)

lemma fifo_workerLoop: "fifo s \<Longrightarrow> workerLoop i s = Some s' \<Longrightarrow> fifo s'"
  by (erule workerLoop_cases) (auto simp: fifo_def prefix_pop)

lemma fifo_enqueue: "fifo s \<Longrightarrow> enqueue c s = Some s' \<Longrightarrow> fifo s'"
  by (erule enqueue_cases) (auto simp: fifo_def)

lemma fifo_dtor: "fifo s \<Longrightarrow> ThreadPool_dtor s = Some s' \<Longrightarrow> fifo s'"
  by (erule dtor_cases) (auto simp: fifo_def)

lemma fifo_step: "fifo s \<Longrightarrow> step a s = Some s' \<Longrightarrow> fifo s'"
proof (cases a)
  case (Call c f)
  assume "fifo s" "step a s = Some s'"
  with Call show ?thesis by (auto elim!: call_cases simp: fifo_def)
next
  case (Enq c)
  assume "fifo s" "step a s = Some s'"
  with Enq show ?thesis by (simp add: fifo_enqueue)
next
  case (Notify c i)
  assume "fifo s" "step a s = Some s'"
  with Notify show ?thesis by (auto elim!: notify_one_cases simp: fifo_def)
next
  case (Loop i)
  assume "fifo s" "step a s = Some s'"
  with Loop show ?thesis by (simp add: fifo_workerLoop)
next
  case (Spurious i)
  assume "fifo s" "step a s = Some s'"
  with Spurious show ?thesis by (auto elim!: spurious_cases simp: fifo_def)
next
  case Dtor
  assume "fifo s" "step a s = Some s'"
  with Dtor show ?thesis by (simp add: fifo_dtor)
qed

lemma fifo_ThreadPool: "fifo (ThreadPool k u)"
  by (simp add: fifo_def ThreadPool_def)


subsection \<open>No task in two places\<close>

lemma held_update:
  "i < length ws \<Longrightarrow>
     held (ws[i := w]) + mset (holding (pc (ws ! i))) = held ws + mset (holding (pc w))"
proof (induction ws arbitrary: i)
  case Nil
  then show ?case by simp
next
  case (Cons a ws)
  show ?case
  proof (cases i)
    case 0
    then show ?thesis by (simp add: held_def)
  next
    case (Suc j)
    with Cons.prems have "j < length ws" by simp
    from Cons.IH [OF this] Suc show ?thesis
      by (simp add: held_def add.assoc)
  qed
qed

lemma held_same:
  "i < length ws \<Longrightarrow> holding (pc w) = holding (pc (ws ! i)) \<Longrightarrow> held (ws[i := w]) = held ws"
  using held_update [of i ws w] by simp

lemma held_take:
  "i < length ws \<Longrightarrow> holding (pc (ws ! i)) = [] \<Longrightarrow> holding (pc w) = [t] \<Longrightarrow>
     held (ws[i := w]) = add_mset t (held ws)"
  using held_update [of i ws w] by simp

lemma held_give:
  "i < length ws \<Longrightarrow> holding (pc (ws ! i)) = [t] \<Longrightarrow> holding (pc w) = [] \<Longrightarrow>
     add_mset t (held (ws[i := w])) = held ws"
  using held_update [of i ws w] by simp

lemma held_notified: "held (map notified ws) = held ws"
  by (induction ws) (auto simp: held_def notified_def holding_def)

lemma holding_simps [simp]:
  "holding WLock = []" "holding WEmpty = []" "holding WWait = []" "holding WWake = []"
  "holding WStop = []" "holding WPop = []" "holding WExit = []"
  "holding (WUnlock None) = []" "holding (WCall None) = []"
  "holding (WUnlock (Some t)) = [t]" "holding (WCall (Some t)) = [t]"
  "holding (WCall task) = holding (WUnlock task)"
  by (simp_all add: holding_def split: option.splits)

lemma pending_set_pc_same:
  "i < length (workers s) \<Longrightarrow> holding p = holding (pc (workers s ! i)) \<Longrightarrow>
     pending (set_pc i p s) = pending s"
  by (simp add: pending_def held_same)

lemma once_same:
  "once s \<Longrightarrow> pending s' = pending s \<Longrightarrow> store s' = store s \<Longrightarrow> once s'"
  by (simp add: once_def)

lemma abandon_other: "t \<notin> set ts \<Longrightarrow> abandon ts h ! t = h ! t"
  by (induction ts arbitrary: h) auto

lemma once_workerLoop:
  assumes "once s" and "workerLoop i s = Some s'"
  shows "once s'"
  using assms(2)
proof (cases rule: workerLoop_cases)
  case call_empty
  show ?thesis
    by (rule once_same [OF assms(1)]) (use call_empty in \<open>simp_all add: pending_set_pc_same\<close>)
next
  case (call_task t)
  have p: "pending s = add_mset t (pending s')"
    using call_task held_give [of i "workers s" t "(workers s ! i)\<lparr>pc := WLock\<rparr>"]
    by (simp add: pending_def)
  from assms(1) have "count (pending s) t \<le> 1" by (simp add: once_def)
  with p have nt: "t \<notin># pending s'" by (simp add: not_in_iff)
  show ?thesis
    unfolding once_def
  proof (rule conjI; intro allI impI)
    fix x
    from assms(1) have "count (pending s) x \<le> 1" by (simp add: once_def)
    with p show "count (pending s') x \<le> 1" by (simp split: if_splits)
  next
    fix x
    assume x: "x \<in># pending s'"
    with nt have "x \<noteq> t" by auto
    from x p have "x \<in># pending s" by simp
    with assms(1) have "x < length (store s) \<and> shared (store s ! x) = None"
      by (simp add: once_def)
    with \<open>x \<noteq> t\<close> call_task show "x < length (store s') \<and> shared (store s' ! x) = None"
      by simp
  qed
next
  case lock
  show ?thesis
    by (rule once_same [OF assms(1)]) (use lock in \<open>simp_all add: pending_def held_same\<close>)
next
  case wait
  show ?thesis
    by (rule once_same [OF assms(1)]) (use wait in \<open>simp_all add: pending_def held_same\<close>)
next
  case nonempty
  show ?thesis
    by (rule once_same [OF assms(1)]) (use nonempty in \<open>simp_all add: pending_def held_same\<close>)
next
  case wake
  show ?thesis
    by (rule once_same [OF assms(1)]) (use wake in \<open>simp_all add: pending_def held_same\<close>)
next
  case exit
  show ?thesis
    by (rule once_same [OF assms(1)]) (use exit in \<open>simp_all add: pending_def held_same\<close>)
next
  case continue
  show ?thesis
    by (rule once_same [OF assms(1)]) (use continue in \<open>simp_all add: pending_def held_same\<close>)
next
  case pop_empty
  show ?thesis
    by (rule once_same [OF assms(1)]) (use pop_empty in \<open>simp_all add: pending_def held_same\<close>)
next
  case (pop t q)
  show ?thesis
    by (rule once_same [OF assms(1)]) (use pop in \<open>simp_all add: pending_def held_take\<close>)
next
  case (unlock task)
  show ?thesis
    by (rule once_same [OF assms(1)]) (use unlock in \<open>simp_all add: pending_def held_same\<close>)
qed

lemma once_enqueue:
  assumes "once s" and "enqueue c s = Some s'"
  shows "once s'"
  using assms(2)
proof (cases rule: enqueue_cases)
  case (push f)
  let ?n = "length (store s)"
  have p: "pending s' = add_mset ?n (pending s)"
    using push by (simp add: pending_def)
  from assms(1) have lt: "\<And>x. x \<in># pending s \<Longrightarrow> x < ?n \<and> shared (store s ! x) = None"
    by (simp add: once_def)
  then have nn: "?n \<notin># pending s" by blast
  show ?thesis
    unfolding once_def
  proof (rule conjI; intro allI impI)
    fix x
    from assms(1) have "count (pending s) x \<le> 1" by (simp add: once_def)
    with p nn show "count (pending s') x \<le> 1" by (auto simp: not_in_iff)
  next
    fix x
    assume "x \<in># pending s'"
    with p have "x = ?n \<or> x \<in># pending s" by simp
    then show "x < length (store s') \<and> shared (store s' ! x) = None"
    proof
      assume "x = ?n"
      with push show ?thesis by simp
    next
      assume "x \<in># pending s"
      from lt [OF this] push show ?thesis by (simp add: nth_append)
    qed
  qed
qed (use assms(1) in \<open>simp_all add: once_def pending_def\<close>)

lemma once_dtor:
  assumes "once s" and "ThreadPool_dtor s = Some s'"
  shows "once s'"
  using assms(2)
proof (cases rule: dtor_cases)
  case stop
  with assms(1) show ?thesis by (simp add: once_def pending_def)
next
  case notify_all
  with assms(1) show ?thesis by (simp add: once_def pending_def held_notified)
next
  case (detach j)
  with assms(1) show ?thesis by (simp add: once_def pending_def held_same)
next
  case (members j)
  have p: "pending s = mset (tasks s) + pending s'"
    using members by (simp add: pending_def)
  show ?thesis
    unfolding once_def
  proof (rule conjI; intro allI impI)
    fix x
    from assms(1) have "count (pending s) x \<le> 1" by (simp add: once_def)
    with p show "count (pending s') x \<le> 1" by simp
  next
    fix x
    assume x: "x \<in># pending s'"
    from assms(1) have c: "count (pending s) x \<le> 1" by (simp add: once_def)
    from c have c': "count (mset (tasks s)) x + count (pending s') x \<le> 1" by (simp add: p)
    from x have a: "Suc 0 \<le> count (pending s') x"
      by (simp only: count_greater_eq_Suc_zero_iff)
    have "x \<notin> set (tasks s)"
    proof
      assume "x \<in> set (tasks s)"
      then have "x \<in># mset (tasks s)" by simp
      then have "Suc 0 \<le> count (mset (tasks s)) x"
        by (simp only: count_greater_eq_Suc_zero_iff)
      with a c' show False by linarith
    qed
    moreover from x p have "x \<in># pending s" by simp
    with assms(1) have "x < length (store s) \<and> shared (store s ! x) = None"
      by (simp add: once_def)
    ultimately show "x < length (store s') \<and> shared (store s' ! x) = None"
      using members by (simp add: abandon_other)
  qed
qed

lemma once_step: "once s \<Longrightarrow> step a s = Some s' \<Longrightarrow> once s'"
proof (cases a)
  case (Call c f)
  assume "once s" "step a s = Some s'"
  with Call show ?thesis by (auto elim!: call_cases simp: once_def pending_def)
next
  case (Enq c)
  assume "once s" "step a s = Some s'"
  with Enq show ?thesis by (simp add: once_enqueue)
next
  case (Notify c i)
  assume "once s" "step a s = Some s'"
  with Notify show ?thesis
    by (auto elim!: notify_one_cases simp: once_def pending_def held_same)
next
  case (Loop i)
  assume "once s" "step a s = Some s'"
  with Loop show ?thesis by (simp add: once_workerLoop)
next
  case (Spurious i)
  assume "once s" "step a s = Some s'"
  with Spurious show ?thesis
    by (auto elim!: spurious_cases simp: once_def pending_def held_same)
next
  case Dtor
  assume "once s" "step a s = Some s'"
  with Dtor show ?thesis by (simp add: once_dtor)
qed

lemma held_spawn: "held ws = {#} \<Longrightarrow> held (spawn i n ws) = {#}"
proof (induction i n ws rule: spawn.induct)
  case (1 i n ws)
  show ?case
  proof (cases "i < n")
    case True
    from 1(2) have "held (ws @ [\<lparr>pc = WLock, joinable = True\<rparr>]) = {#}"
      by (simp add: held_def)
    with 1(1) [OF True] True show ?thesis by (simp add: spawn.simps [of i n ws])
  next
    case False
    with 1(2) show ?thesis by (simp add: spawn.simps [of i n ws])
  qed
qed

lemma once_ThreadPool: "once (ThreadPool k u)"
proof -
  have "held (spawn 0 n []) = {#}" for n
    by (rule held_spawn) (simp add: held_def)
  then show ?thesis by (simp add: once_def pending_def ThreadPool_def)
qed


lemma named_step: "named s \<Longrightarrow> step a s = Some s' \<Longrightarrow> named s'"
proof (cases a)
  case (Call c f)
  assume "named s" "step a s = Some s'"
  with Call show ?thesis by (auto elim!: call_cases simp: named_def)
next
  case (Enq c)
  assume "named s" "step a s = Some s'"
  with Enq show ?thesis by (auto elim!: enqueue_cases simp: named_def)
next
  case (Notify c i)
  assume "named s" "step a s = Some s'"
  with Notify show ?thesis by (auto elim!: notify_one_cases simp: named_def)
next
  case (Loop i)
  assume "named s" "step a s = Some s'"
  with Loop show ?thesis by (auto elim!: workerLoop_cases simp: named_def)
next
  case (Spurious i)
  assume "named s" "step a s = Some s'"
  with Spurious show ?thesis by (auto elim!: spurious_cases simp: named_def)
next
  case Dtor
  assume "named s" "step a s = Some s'"
  with Dtor show ?thesis by (auto elim!: dtor_cases simp: named_def)
qed

lemma named_ThreadPool: "named (ThreadPool k u)"
  by (simp add: named_def ThreadPool_def)

subsection \<open>Mutual exclusion\<close>

lemma in_block_simps [simp]:
  "\<not> in_block WLock" "in_block WEmpty" "\<not> in_block WWait" "\<not> in_block WWake"
  "in_block WStop" "in_block WPop" "in_block (WUnlock task)" "\<not> in_block (WCall task)"
  "\<not> in_block WExit"
  by (simp_all add: in_block_def)

lemma caller_in_block_simps [simp]:
  "\<not> caller_in_block CIdle" "\<not> caller_in_block (CLock f)" "caller_in_block (CStop f)"
  "caller_in_block (CPush f)" "caller_in_block (CUnlock t)" "\<not> caller_in_block (CNotify t)"
  "\<not> caller_in_block (CReturn t)" "\<not> caller_in_block (CDone r)"
  by (simp_all add: caller_in_block_def)

lemma in_block_notified [simp]: "in_block (pc (notified w)) = in_block (pc w)"
  by (simp add: notified_def)

lemma exclusive_worker:
  assumes "exclusive s" and "i < length (workers s)"
    and "workers s' = (workers s)[i := (workers s ! i)\<lparr>pc := p\<rparr>]"
    and "callers s' = callers s"
    and "in_block (pc (workers s ! i)) \<and> in_block p \<and> mutex s' = mutex s
       \<or> in_block (pc (workers s ! i)) \<and> \<not> in_block p \<and> mutex s' = None
       \<or> \<not> in_block (pc (workers s ! i)) \<and> \<not> in_block p \<and> mutex s' = mutex s
       \<or> mutex s = None \<and> in_block p \<and> mutex s' = Some (Worker i)"
  shows "exclusive s'"
  unfolding exclusive_def
proof (rule conjI; intro allI impI)
  fix j
  assume "j < length (workers s')"
  with assms(3) have j: "j < length (workers s)" by simp
  from assms(1) j have ej: "in_block (pc (workers s ! j)) \<longleftrightarrow> mutex s = Some (Worker j)"
    by (simp add: exclusive_def)
  from assms(1,2) have ei: "in_block (pc (workers s ! i)) \<longleftrightarrow> mutex s = Some (Worker i)"
    by (simp add: exclusive_def)
  show "in_block (pc (workers s' ! j)) \<longleftrightarrow> mutex s' = Some (Worker j)"
  proof (cases "j = i")
    case True
    with assms(2,3,5) ei show ?thesis by auto
  next
    case False
    with assms(2,3,5) j ej ei show ?thesis by auto
  qed
next
  fix c
  from assms(1) have ec: "caller_in_block (callers s c) \<longleftrightarrow> mutex s = Some (Caller c)"
    by (simp add: exclusive_def)
  from assms(1,2) have ei: "in_block (pc (workers s ! i)) \<longleftrightarrow> mutex s = Some (Worker i)"
    by (simp add: exclusive_def)
  from assms(4,5) ec ei show "caller_in_block (callers s' c) \<longleftrightarrow> mutex s' = Some (Caller c)"
    by auto
qed

lemma exclusive_caller:
  assumes "exclusive s"
    and "workers s' = workers s"
    and "callers s' = (callers s)(c := p)"
    and "caller_in_block (callers s c) \<and> caller_in_block p \<and> mutex s' = mutex s
       \<or> caller_in_block (callers s c) \<and> \<not> caller_in_block p \<and> mutex s' = None
       \<or> \<not> caller_in_block (callers s c) \<and> \<not> caller_in_block p \<and> mutex s' = mutex s
       \<or> mutex s = None \<and> caller_in_block p \<and> mutex s' = Some (Caller c)"
  shows "exclusive s'"
  unfolding exclusive_def
proof (rule conjI; intro allI impI)
  fix j
  assume "j < length (workers s')"
  with assms(2) have j: "j < length (workers s)" by simp
  from assms(1) j have ej: "in_block (pc (workers s ! j)) \<longleftrightarrow> mutex s = Some (Worker j)"
    by (simp add: exclusive_def)
  from assms(1) have ec: "caller_in_block (callers s c) \<longleftrightarrow> mutex s = Some (Caller c)"
    by (simp add: exclusive_def)
  from assms(2,4) ej ec show "in_block (pc (workers s' ! j)) \<longleftrightarrow> mutex s' = Some (Worker j)"
    by auto
next
  fix d
  from assms(1) have ed: "caller_in_block (callers s d) \<longleftrightarrow> mutex s = Some (Caller d)"
    by (simp add: exclusive_def)
  from assms(1) have ec: "caller_in_block (callers s c) \<longleftrightarrow> mutex s = Some (Caller c)"
    by (simp add: exclusive_def)
  show "caller_in_block (callers s' d) \<longleftrightarrow> mutex s' = Some (Caller d)"
  proof (cases "d = c")
    case True
    with assms(3,4) ec show ?thesis by auto
  next
    case False
    with assms(3,4) ed ec show ?thesis by auto
  qed
qed

lemma exclusive_workerLoop:
  assumes "exclusive s" and "workerLoop i s = Some s'"
  shows "exclusive s'"
  using assms(2)
proof (cases rule: workerLoop_cases)
  case call_empty
  show ?thesis
    by (rule exclusive_worker [OF assms(1), of i s' "WLock"]) (use call_empty in simp_all)
next
  case (call_task t)
  show ?thesis
    by (rule exclusive_worker [OF assms(1), of i s' "WLock"]) (use call_task in simp_all)
next
  case lock
  show ?thesis
    by (rule exclusive_worker [OF assms(1), of i s' "WEmpty"]) (use lock in simp_all)
next
  case wait
  show ?thesis
    by (rule exclusive_worker [OF assms(1), of i s' "WWait"]) (use wait in simp_all)
next
  case nonempty
  show ?thesis
    by (rule exclusive_worker [OF assms(1), of i s' "WStop"]) (use nonempty in simp_all)
next
  case wake
  show ?thesis
    by (rule exclusive_worker [OF assms(1), of i s' "WStop"]) (use wake in simp_all)
next
  case exit
  show ?thesis
    by (rule exclusive_worker [OF assms(1), of i s' "WExit"]) (use exit in simp_all)
next
  case continue
  show ?thesis
    by (rule exclusive_worker [OF assms(1), of i s' "WPop"]) (use continue in simp_all)
next
  case pop_empty
  show ?thesis
    by (rule exclusive_worker [OF assms(1), of i s' "WUnlock None"]) (use pop_empty in simp_all)
next
  case (pop t q)
  show ?thesis
    by (rule exclusive_worker [OF assms(1), of i s' "WUnlock (Some t)"]) (use pop in simp_all)
next
  case (unlock task)
  show ?thesis
    by (rule exclusive_worker [OF assms(1), of i s' "WCall task"]) (use unlock in simp_all)
qed

lemma exclusive_enqueue:
  assumes "exclusive s" and "enqueue c s = Some s'"
  shows "exclusive s'"
  using assms(2)
proof (cases rule: enqueue_cases)
  case (lock f)
  show ?thesis
    by (rule exclusive_caller [OF assms(1), of s' c "CStop f"]) (use lock in simp_all)
next
  case (throw f)
  show ?thesis
    by (rule exclusive_caller [OF assms(1), of s' c "CDone (Inl (runtime_error ''ThreadPool is stopping''))"]) (use throw in simp_all)
next
  case (continue f)
  show ?thesis
    by (rule exclusive_caller [OF assms(1), of s' c "CPush f"]) (use continue in simp_all)
next
  case (push f)
  show ?thesis
    by (rule exclusive_caller [OF assms(1), of s' c "CUnlock (length (store s))"]) (use push in simp_all)
next
  case (unlock t)
  show ?thesis
    by (rule exclusive_caller [OF assms(1), of s' c "CNotify t"]) (use unlock in simp_all)
next
  case (notify t)
  show ?thesis
    by (rule exclusive_caller [OF assms(1), of s' c "CReturn t"]) (use notify in simp_all)
next
  case (return t)
  show ?thesis
    by (rule exclusive_caller [OF assms(1), of s' c "CDone (Inr t)"]) (use return in simp_all)
qed

lemma exclusive_dtor:
  assumes "exclusive s" and "ThreadPool_dtor s = Some s'"
  shows "exclusive s'"
  using assms(2)
proof (cases rule: dtor_cases)
  case (detach j)
  have "pc (((workers s)[j := (workers s ! j)\<lparr>joinable := False\<rparr>]) ! i) = pc (workers s ! i)" for i
    using detach(2) by (cases "i = j") simp_all
  with assms(1) detach show ?thesis by (simp add: exclusive_def)
qed (use assms(1) in \<open>simp_all add: exclusive_def\<close>)

lemma exclusive_step: "exclusive s \<Longrightarrow> step a s = Some s' \<Longrightarrow> exclusive s'"
proof (cases a)
  case (Call c f)
  assume e: "exclusive s" and "step a s = Some s'"
  with Call have "call c f s = Some s'" by simp
  then show ?thesis
  proof (cases rule: call_cases)
    case 1
    show ?thesis
      by (rule exclusive_caller [OF e, of s' c "CLock f"]) (use 1 in auto)
  qed
next
  case (Enq c)
  assume "exclusive s" "step a s = Some s'"
  with Enq show ?thesis by (simp add: exclusive_enqueue)
next
  case (Notify c i)
  assume e: "exclusive s" and "step a s = Some s'"
  with Notify have "notify_one c i s = Some s'" by simp
  then show ?thesis
  proof (cases rule: notify_one_cases)
    case (1 t)
    have "exclusive (set_pc i WWake s)"
      by (rule exclusive_worker [OF e, of i "set_pc i WWake s" WWake]) (use 1 in simp_all)
    then show ?thesis
      by (rule exclusive_caller [of "set_pc i WWake s" s' c "CReturn t"]) (use 1 in simp_all)
  qed
next
  case (Loop i)
  assume "exclusive s" "step a s = Some s'"
  with Loop show ?thesis by (simp add: exclusive_workerLoop)
next
  case (Spurious i)
  assume e: "exclusive s" and "step a s = Some s'"
  with Spurious have "spurious i s = Some s'" by simp
  then show ?thesis
  proof (cases rule: spurious_cases)
    case 1
    show ?thesis
      by (rule exclusive_worker [OF e, of i s' WWake]) (use 1 in simp_all)
  qed
next
  case Dtor
  assume "exclusive s" "step a s = Some s'"
  with Dtor show ?thesis by (simp add: exclusive_dtor)
qed

lemma pc_spawn: "\<forall>w \<in> set ws. pc w = WLock \<Longrightarrow> \<forall>w \<in> set (spawn i n ws). pc w = WLock"
proof (induction i n ws rule: spawn.induct)
  case (1 i n ws)
  show ?case
  proof (cases "i < n")
    case True
    from 1(2) have "\<forall>w \<in> set (ws @ [\<lparr>pc = WLock, joinable = True\<rparr>]). pc w = WLock" by simp
    with 1(1) [OF True] True show ?thesis by (simp add: spawn.simps [of i n ws])
  next
    case False
    with 1(2) show ?thesis by (simp add: spawn.simps [of i n ws])
  qed
qed

lemma exclusive_ThreadPool: "exclusive (ThreadPool k u)"
proof -
  have "\<forall>w \<in> set (spawn 0 n []). pc w = WLock" for n
    by (rule pc_spawn) simp
  then have "i < length (spawn 0 n []) \<Longrightarrow> pc (spawn 0 n [] ! i) = WLock" for i n
    using nth_mem by blast
  then show ?thesis by (simp add: exclusive_def ThreadPool_def)
qed

lemma mutual_exclusion: "run as (ThreadPool k u) = Some s \<Longrightarrow> exclusive s"
  by (rule run_invariant [of as "ThreadPool k u" s exclusive])
    (simp_all add: exclusive_ThreadPool exclusive_step)

subsection \<open>Reachable states\<close>

lemma held_count:
  "i < length ws \<Longrightarrow> count (mset (holding (pc (ws ! i)))) t \<le> count (held ws) t"
proof (induction ws arbitrary: i)
  case Nil
  then show ?case by simp
next
  case (Cons a ws)
  show ?case
  proof (cases i)
    case 0
    then show ?thesis by (simp add: held_def)
  next
    case (Suc j)
    with Cons.prems have "j < length ws" by simp
    from Cons.IH [OF this] Suc show ?thesis by (simp add: held_def)
  qed
qed

lemma once_run: "run as (ThreadPool k u) = Some s \<Longrightarrow> once s"
  by (rule run_invariant [of as "ThreadPool k u" s once]) (simp_all add: once_ThreadPool once_step)

lemma mutex_same: "mutex s = m \<Longrightarrow> s\<lparr>mutex := m\<rparr> = s"
  by auto

section \<open>The order of the queue\<close>

text \<open>
  C6. The queue is first in, first out: in every state the pool reaches, the tasks taken
  out of the queue, in the order of their \<open>pop\<close>, are an initial segment of the tasks put
  in, in the order of their \<open>emplace\<close>; and while the pool exists, what was put in is
  exactly what was taken out followed by what the queue still holds. So a task put in
  before another is taken out before it, whichever callers and workers are involved.
\<close>

theorem dequeue_order:
  "run as (ThreadPool k u) = Some s \<Longrightarrow>
     distinct (pushed s) \<and> prefix (popped s) (pushed s) \<and>
     (owner s \<noteq> DGone \<longrightarrow> popped s @ tasks s = pushed s)"
proof -
  assume r: "run as (ThreadPool k u) = Some s"
  have "fifo s"
    by (rule run_invariant [of as "ThreadPool k u" s fifo, OF r fifo_ThreadPool]) (rule fifo_step)
  moreover have "named s"
    by (rule run_invariant [of as "ThreadPool k u" s named, OF r named_ThreadPool])
      (rule named_step)
  ultimately show ?thesis by (simp add: fifo_def named_def)
qed

theorem dequeue_order_witness:
  "map_option popped
     (run [Call 0 fetch_add_1, Enq 0, Enq 0, Enq 0, Enq 0, Enq 0, Enq 0,
           Call 0 fetch_add_1, Enq 0, Enq 0, Enq 0, Enq 0,
           Loop 0, Loop 0, Loop 0, Loop 0]
        (ThreadPool 1 0 :: (32 word, unit) pool)) = Some [0] \<and>
   prefix [0] [0, 1 :: nat]"
proof -
  obtain s where r: "run [Call 0 fetch_add_1, Enq 0, Enq 0, Enq 0, Enq 0, Enq 0, Enq 0,
           Call 0 fetch_add_1, Enq 0, Enq 0, Enq 0, Enq 0,
           Loop 0, Loop 0, Loop 0, Loop 0]
        (ThreadPool 1 0 :: (32 word, unit) pool) = Some s"
    and "popped s = [0]" and "pushed s = [0, 1]"
    by (simp add: exec)
  with dequeue_order [OF r] show ?thesis by simp
qed

section \<open>Submission\<close>

text \<open>
  C4. Let a caller enter \<open>enqueue\<close> with a callable while the pool exists and the mutex
  is free, and run on alone. If \<open>stop_\<close> is set, the call ends after the lock and the
  test \<open>if (stop_)\<close> by throwing \<open>runtime_error("ThreadPool is stopping")\<close>: nothing has
  been put in the queue or in the store, and the mutex is free again. If \<open>stop_\<close> is not
  set, the call does not throw: it appends the task at the back of the queue, which is
  one longer, unlocks, notifies (a worker blocked on \<open>cv_\<close> if there is one) and returns
  the future of that task. So the call throws if and only if the flag is set.
\<close>

theorem enqueue_rejects_iff_stopping:
  assumes "callers s c = CIdle \<or> callers s c = CDone r"
    and "mutex s = None" and "owner s \<noteq> DGone"
  shows "(stop s \<longrightarrow>
      (\<exists>s'. run [Call c f, Enq c, Enq c] s = Some s' \<and>
         callers s' c = CDone (Inl (runtime_error ''ThreadPool is stopping'')) \<and>
         tasks s' = tasks s \<and> store s' = store s \<and> pushed s' = pushed s \<and>
         mutex s' = None)) \<and>
    (\<not> stop s \<longrightarrow>
      (\<exists>s' a. (a = Enq c \<or> (\<exists>i. a = Notify c i)) \<and>
         run [Call c f, Enq c, Enq c, Enq c, Enq c, a, Enq c] s = Some s' \<and>
         callers s' c = CDone (Inr (length (store s))) \<and>
         tasks s' = tasks s @ [length (store s)] \<and>
         length (tasks s') = length (tasks s) + 1 \<and>
         store s' = store s @ [\<lparr>fn = f, shared = None\<rparr>] \<and>
         pushed s' = pushed s @ [length (store s)] \<and>
         mutex s' = None))"
proof (intro conjI impI)
  assume "stop s"
  with assms show "\<exists>s'. run [Call c f, Enq c, Enq c] s = Some s' \<and>
         callers s' c = CDone (Inl (runtime_error ''ThreadPool is stopping'')) \<and>
         tasks s' = tasks s \<and> store s' = store s \<and> pushed s' = pushed s \<and>
         mutex s' = None"
    by (auto simp: call_def enqueue_def)
next
  assume ns: "\<not> stop s"
  let ?t = "length (store s)"
  define s4 where "s4 = set_caller c (CNotify ?t)
      (s\<lparr>mutex := None, store := store s @ [\<lparr>fn = f, shared = None\<rparr>],
         tasks := tasks s @ [?t], pushed := pushed s @ [?t]\<rparr>)"
  have r4: "run [Call c f, Enq c, Enq c, Enq c, Enq c] s = Some s4"
    using assms ns by (auto simp: call_def enqueue_def s4_def set_caller_def Let_def)
  have "\<exists>a s'. (a = Enq c \<or> (\<exists>i. a = Notify c i)) \<and> step a s4 = Some s' \<and>
      callers s' c = CReturn ?t \<and> tasks s' = tasks s4 \<and> store s' = store s4 \<and>
      pushed s' = pushed s4 \<and> mutex s' = mutex s4 \<and> owner s' = owner s4"
  proof (cases "waiting s4")
    case False
    with assms(3) have "step (Enq c) s4 = Some (set_caller c (CReturn ?t) s4)"
      by (simp add: enqueue_def s4_def)
    then show ?thesis
      by (intro exI [of _ "Enq c"] exI [of _ "set_caller c (CReturn ?t) s4"]) simp
  next
    case True
    then obtain i where i: "i < length (workers s4)" "pc (workers s4 ! i) = WWait"
      by (auto simp: waiting_def list_ex_iff in_set_conv_nth)
    with assms(3) have "step (Notify c i) s4 = Some (set_caller c (CReturn ?t) (set_pc i WWake s4))"
      by (simp add: notify_one_def s4_def)
    then show ?thesis
      by (intro exI [of _ "Notify c i"] exI [of _ "set_caller c (CReturn ?t) (set_pc i WWake s4)"])
        simp
  qed
  then obtain a s5 where a: "a = Enq c \<or> (\<exists>i. a = Notify c i)"
    and s5: "step a s4 = Some s5" "callers s5 c = CReturn ?t" "tasks s5 = tasks s4"
      "store s5 = store s4" "pushed s5 = pushed s4" "mutex s5 = mutex s4" "owner s5 = owner s4"
    by blast
  from s5 assms(3) have r6: "step (Enq c) s5 = Some (set_caller c (CDone (Inr ?t)) s5)"
    by (simp add: enqueue_def s4_def)
  have "run ([Call c f, Enq c, Enq c, Enq c, Enq c] @ [a, Enq c]) s
      = (case run [Call c f, Enq c, Enq c, Enq c, Enq c] s of
           None \<Rightarrow> None | Some s' \<Rightarrow> run [a, Enq c] s')"
    by (rule run_append)
  also have "\<dots> = run [a, Enq c] s4"
    by (simp only: r4 option.case)
  also have "\<dots> = Some (set_caller c (CDone (Inr ?t)) s5)"
    using s5(1) r6 by simp
  finally have "run [Call c f, Enq c, Enq c, Enq c, Enq c, a, Enq c] s
      = Some (set_caller c (CDone (Inr ?t)) s5)"
    by (simp only: append_Cons append_Nil)
  with a s5 show "\<exists>s' a. (a = Enq c \<or> (\<exists>i. a = Notify c i)) \<and>
         run [Call c f, Enq c, Enq c, Enq c, Enq c, a, Enq c] s = Some s' \<and>
         callers s' c = CDone (Inr (length (store s))) \<and>
         tasks s' = tasks s @ [length (store s)] \<and>
         length (tasks s') = length (tasks s) + 1 \<and>
         store s' = store s @ [\<lparr>fn = f, shared = None\<rparr>] \<and>
         pushed s' = pushed s @ [length (store s)] \<and>
         mutex s' = None"
    by (intro exI [of _ "set_caller c (CDone (Inr ?t)) s5"] exI [of _ a]) (simp add: s4_def)
qed

theorem enqueue_rejects_iff_stopping_witness:
  "\<exists>(s :: (32 word, unit) pool) s' a t t'.
     run [Loop 0, Loop 0] (ThreadPool 1 0) = Some s \<and> \<not> stop s \<and>
     (a = Enq 0 \<or> (\<exists>i. a = Notify 0 i)) \<and>
     run [Call 0 fetch_add_1, Enq 0, Enq 0, Enq 0, Enq 0, a, Enq 0] s = Some s' \<and>
     callers s' 0 = CDone (Inr 0) \<and> tasks s' = [0] \<and>
     run [Dtor] (ThreadPool 1 0) = Some t \<and> stop t \<and>
     run [Call 0 fetch_add_1, Enq 0, Enq 0] t = Some t' \<and>
     callers t' 0 = CDone (Inl (runtime_error ''ThreadPool is stopping'')) \<and> tasks t' = []"
proof -
  obtain s :: "(32 word, unit) pool" where s: "run [Loop 0, Loop 0] (ThreadPool 1 0) = Some s"
    and hs: "callers s 0 = CIdle \<or> callers s 0 = CDone (Inr 0)" "mutex s = None"
      "owner s \<noteq> DGone"
    and ns: "\<not> stop s" and es: "tasks s = []" "store s = []"
    by (simp add: exec)
  from enqueue_rejects_iff_stopping [OF hs, of fetch_add_1] ns es obtain s' a where
    a: "a = Enq 0 \<or> (\<exists>i. a = Notify 0 i)"
    and r: "run [Call 0 fetch_add_1, Enq 0, Enq 0, Enq 0, Enq 0, a, Enq 0] s = Some s'"
    and c: "callers s' 0 = CDone (Inr 0)" "tasks s' = [0]"
    by auto
  obtain t :: "(32 word, unit) pool" where t: "run [Dtor] (ThreadPool 1 0) = Some t"
    and ht: "callers t 0 = CIdle \<or> callers t 0 = CDone (Inr 0)" "mutex t = None"
      "owner t \<noteq> DGone"
    and st: "stop t" and et: "tasks t = []"
    by (simp add: exec)
  from enqueue_rejects_iff_stopping [OF ht, of fetch_add_1] st et obtain t' where
    "run [Call 0 fetch_add_1, Enq 0, Enq 0] t = Some t'"
    "callers t' 0 = CDone (Inl (runtime_error ''ThreadPool is stopping''))" "tasks t' = []"
    by auto
  with s ns a r c t st show ?thesis by blast
qed

section \<open>A callable that throws\<close>

text \<open>
  C8. In any state the pool reaches, let a worker be about to invoke a task whose
  callable throws \<open>e\<close>. The call is a step of the worker, after which the shared state
  of the task holds \<open>e\<close>, \<open>get\<close> on its future throws \<open>e\<close>, and the worker is back at
  the top of its loop, not terminated; the queue, the flag and the mutex are as they
  were. If the queue holds a next task and the pool is not stopping, the same worker,
  running on, takes that task out and invokes it.
\<close>

theorem failure_is_captured:
  assumes "run as (ThreadPool k u0) = Some s"
    and "i < length (workers s)" and "pc (workers s ! i) = WCall (Some t)"
    and "fn (store s ! t) (env s) = (u, Inl e)"
  shows "\<exists>s'. workerLoop i s = Some s' \<and>
      shared (store s' ! t) = Some (Inl e) \<and>
      get (get_future t) (store s') = (Raises e, None) \<and>
      pc (workers s' ! i) = WLock \<and>
      tasks s' = tasks s \<and> stop s' = stop s \<and> mutex s' = mutex s \<and> owner s' = owner s \<and>
      (\<forall>t' q. tasks s = t' # q \<and> mutex s = None \<and> \<not> stop s \<and> owner s \<noteq> DGone \<longrightarrow>
         (\<exists>s''. run [Loop i, Loop i, Loop i, Loop i, Loop i, Loop i] s' = Some s'' \<and>
            tasks s'' = q \<and> pc (workers s'' ! i) = WLock \<and>
            shared (store s'' ! t') = Some (snd (fn (store s ! t') u))))"
proof -
  have o: "once s" using assms(1) by (rule once_run)
  have "count (mset (holding (pc (workers s ! i)))) t \<le> count (held (workers s)) t"
    using assms(2) by (rule held_count)
  with assms(3) have h: "1 \<le> count (held (workers s)) t" by simp
  then have "t \<in># pending s" by (simp add: pending_def Suc_le_eq)
  with o have t: "t < length (store s)" "shared (store s ! t) = None"
    by (simp_all add: once_def)
  define s' where "s' = set_pc i WLock (s\<lparr>env := u,
      store := (store s)[t := (store s ! t)\<lparr>shared := Some (Inl e)\<rparr>]\<rparr>)"
  have w: "workerLoop i s = Some s'"
    using assms(2,3,4) t by (simp add: workerLoop_def invoke_def s'_def)
  have next_task: "\<exists>s''. run [Loop i, Loop i, Loop i, Loop i, Loop i, Loop i] s' = Some s'' \<and>
            tasks s'' = q \<and> pc (workers s'' ! i) = WLock \<and>
            shared (store s'' ! t') = Some (snd (fn (store s ! t') u))"
    if q: "tasks s = t' # q" and free: "mutex s = None" "\<not> stop s" "owner s \<noteq> DGone" for t' q
  proof -
    from q have "count (pending s) t' \<ge> 1 + count (held (workers s)) t'"
      by (simp add: pending_def)
    moreover from o have "count (pending s) t' \<le> 1" by (simp add: once_def)
    ultimately have "count (held (workers s)) t' = 0" by simp
    with h have ne: "t' \<noteq> t" by (metis not_one_le_zero)
    from q have "t' \<in># pending s" by (simp add: pending_def)
    with o have t': "t' < length (store s)" "shared (store s ! t') = None"
      by (simp_all add: once_def)
    show ?thesis
      using assms(2) t t' ne q free
      by (simp add: workerLoop_def invoke_def s'_def set_pc_def split: prod.splits)
  qed
  have "shared (store s' ! t) = Some (Inl e)"
      "get (get_future t) (store s') = (Raises e, None)"
      "pc (workers s' ! i) = WLock"
      "tasks s' = tasks s" "stop s' = stop s" "mutex s' = mutex s" "owner s' = owner s"
    using assms(2) t by (simp_all add: s'_def get_def get_future_def)
  with w next_task show ?thesis by blast
qed

theorem failure_is_captured_witness:
  "\<exists>s s' :: (32 word, unit) pool.
     run [Call 0 (\<lambda>c. (c, Inl (thrown 1))), Enq 0, Enq 0, Enq 0, Enq 0, Enq 0, Enq 0,
          Call 0 fetch_add_1, Enq 0, Enq 0, Enq 0, Enq 0, Enq 0, Enq 0,
          Loop 0, Loop 0, Loop 0, Loop 0, Loop 0] (ThreadPool 1 0) = Some s \<and>
     workerLoop 0 s = Some s' \<and>
     get (get_future 0) (store s') = (Raises (thrown 1), None) \<and>
     pc (workers s' ! 0) = WLock"
proof -
  obtain s :: "(32 word, unit) pool" where
    r: "run [Call 0 (\<lambda>c. (c, Inl (thrown 1))), Enq 0, Enq 0, Enq 0, Enq 0, Enq 0, Enq 0,
          Call 0 fetch_add_1, Enq 0, Enq 0, Enq 0, Enq 0, Enq 0, Enq 0,
          Loop 0, Loop 0, Loop 0, Loop 0, Loop 0] (ThreadPool 1 0) = Some s"
    and h: "0 < length (workers s)" "pc (workers s ! 0) = WCall (Some 0)"
      "fn (store s ! 0) (env s) = (0, Inl (thrown 1))"
    by (simp add: exec)
  from failure_is_captured [OF r h] r show ?thesis by blast
qed

section \<open>Waking to an empty queue\<close>

text \<open>
  C10. A worker that has been unblocked from \<open>cv_.wait\<close>, by a notification or
  spuriously, and that finds the flag not set and the queue empty, takes nothing out of
  the queue (\<open>task\<close> stays empty), skips the call at \<open>if (task)\<close> (no packaged task is
  touched, the callables' state is unchanged), and at its next iteration, the queue still
  being empty, blocks in \<open>cv_.wait\<close> again: apart from its own control point the pool
  is as it was.
\<close>

theorem empty_wake:
  assumes "i < length (workers s)" and "pc (workers s ! i) = WWake" and "mutex s = None"
    and "tasks s = []" and "\<not> stop s" and "owner s \<noteq> DGone"
  shows "\<exists>s1 s2. run [Loop i, Loop i, Loop i] s = Some s1 \<and>
      pc (workers s1 ! i) = WUnlock None \<and> tasks s1 = [] \<and> popped s1 = popped s \<and>
      run [Loop i, Loop i] s1 = Some s2 \<and>
      pc (workers s2 ! i) = WLock \<and> store s2 = store s \<and> env s2 = env s \<and>
      run [Loop i, Loop i] s2 = Some (set_pc i WWait s)"
  using assms by (simp add: workerLoop_def set_pc_def mutex_same)

theorem empty_wake_witness:
  "\<exists>s :: (32 word, unit) pool.
     run [Loop 0, Loop 0, Spurious 0] (ThreadPool 1 0) = Some s \<and>
     run [Loop 0, Loop 0, Loop 0, Loop 0, Loop 0, Loop 0, Loop 0] s = Some (set_pc 0 WWait s)"
proof -
  obtain s :: "(32 word, unit) pool" where r: "run [Loop 0, Loop 0, Spurious 0] (ThreadPool 1 0) = Some s"
    and h: "0 < length (workers s)" "pc (workers s ! 0) = WWake" "mutex s = None"
      "tasks s = []" "\<not> stop s" "owner s \<noteq> DGone"
    by (simp add: exec)
  from empty_wake [OF h] obtain s1 s2 where
    "run [Loop 0, Loop 0, Loop 0] s = Some s1" "run [Loop 0, Loop 0] s1 = Some s2"
    "run [Loop 0, Loop 0] s2 = Some (set_pc 0 WWait s)"
    by blast
  then have "run [Loop 0, Loop 0, Loop 0, Loop 0, Loop 0, Loop 0, Loop 0] s = Some (set_pc 0 WWait s)"
    by (auto split: option.splits)
  with r show ?thesis by blast
qed

section \<open>Reading a future twice\<close>

text \<open>
  C7, as the claim states it, fails: after a task has returned, the first \<open>get\<close> on its
  future returns the value, and a second \<open>get\<close> on the same future, which the first has
  left invalid, does not.
\<close>

theorem second_get_counterexample:
  "map_option store
     (run [Call 0 fetch_add_1, Enq 0, Enq 0, Enq 0, Enq 0, Enq 0, Enq 0,
           Loop 0, Loop 0, Loop 0, Loop 0, Loop 0, Loop 0]
        (ThreadPool 1 0 :: (32 word, unit) pool))
     = Some [\<lparr>fn = fetch_add_1, shared = Some (Inr ())\<rparr>] \<and>
   fst (get (get_future 0) [\<lparr>fn = fetch_add_1, shared = Some (Inr ())\<rparr>]) = Returns () \<and>
   fst (get (snd (get (get_future 0) [\<lparr>fn = fetch_add_1, shared = Some (Inr ())\<rparr>]))
          [\<lparr>fn = fetch_add_1, shared = Some (Inr ())\<rparr>]) \<noteq> Returns ()"
  by (simp add: exec get_def get_future_def)

text \<open>
  C7, amended. Once the outcome of a task is stored, \<open>wait\<close> on its future may be repeated:
  each call returns at once and leaves the future as it was, but it returns no outcome.
  The outcome is read by \<open>get\<close>, once: \<open>get\<close> returns the value, or throws the stored
  exception, and leaves the future invalid; a further \<open>get\<close> on it is not a read of the
  outcome, it has no defined result.
\<close>

theorem get_once:
  assumes "t < length st" and "shared (st ! t) = Some r"
  shows "wait (get_future t) st = (Returns (), get_future t) \<and>
     get (get_future t) st = ((case r of Inl e \<Rightarrow> Raises e | Inr v \<Rightarrow> Returns v), None) \<and>
     get (snd (get (get_future t) st)) st = (Undefined, None)"
  using assms by (simp add: get_def wait_def get_future_def split: sum.splits)

theorem get_once_witness:
  "wait (get_future 0) [\<lparr>fn = fetch_add_1, shared = Some (Inr ())\<rparr>] = (Returns (), get_future 0) \<and>
   get (get_future 0) [\<lparr>fn = fetch_add_1, shared = Some (Inr ())\<rparr>] = (Returns (), None) \<and>
   get (snd (get (get_future 0) [\<lparr>fn = fetch_add_1, shared = Some (Inr ())\<rparr>]))
     [\<lparr>fn = fetch_add_1, shared = Some (Inr ())\<rparr>] = (Undefined, None)"
proof -
  let ?st = "[\<lparr>fn = fetch_add_1, shared = Some (Inr ())\<rparr>]"
  have 1: "0 < length ?st" by simp
  have 2: "shared (?st ! 0) = Some (Inr ())" by simp
  from get_once [OF 1 2] show ?thesis unfolding sum.case .
qed

section \<open>Destruction\<close>

text \<open>
  C1 fails on the code. A pool of two workers, one task submitted, as in
  \<open>test_destructor_waits_for_tasks\<close>: worker 0 has moved the task out of the queue and is
  in its call when the owner runs the destructor from its first statement to its
  return. The destructor has detached both threads and is gone, while the task has not
  finished: \<open>finished\<close> is still false and the shared state empty. The task completes
  only in a later step of the detached worker.
\<close>

theorem destructor_does_not_wait:
  "\<exists>s s' :: (bool, unit) pool.
     run [Call 0 store_finished, Enq 0, Enq 0, Enq 0, Enq 0, Enq 0, Enq 0,
          Loop 0, Loop 0, Loop 0, Loop 0, Loop 0,
          Dtor, Dtor, Dtor, Dtor, Dtor] (ThreadPool 2 False) = Some s \<and>
     owner s = DGone \<and> pc (workers s ! 0) = WCall (Some 0) \<and>
     map joinable (workers s) = [False, False] \<and>
     env s = False \<and> shared (store s ! 0) = None \<and>
     workerLoop 0 s = Some s' \<and> env s' = True"
  by (simp add: exec)

text \<open>
  C2 fails on the code. A pool of one worker and two tasks in the queue: the worker is
  in the call of task 0 when the owner executes \<open>stop_ = true\<close>. The worker finishes task
  0, locks, finds the queue not empty, reads the flag and returns. It has exited with
  task 1 still in the queue, never invoked; when the destructor has returned, the future
  of task 1 throws \<open>broken_promise\<close>.
\<close>

theorem worker_exits_before_queue_is_empty:
  "\<exists>s s' :: (32 word, unit) pool.
     run [Call 0 fetch_add_1, Enq 0, Enq 0, Enq 0, Enq 0, Enq 0, Enq 0,
          Call 0 fetch_add_1, Enq 0, Enq 0, Enq 0, Enq 0, Enq 0, Enq 0,
          Loop 0, Loop 0, Loop 0, Loop 0, Loop 0,
          Dtor,
          Loop 0, Loop 0, Loop 0, Loop 0] (ThreadPool 1 0) = Some s \<and>
     map pc (workers s) = [WExit] \<and> tasks s = [1] \<and> env s = 1 \<and>
     shared (store s ! 1) = None \<and>
     run [Dtor, Dtor, Dtor] s = Some s' \<and> owner s' = DGone \<and>
     get (get_future 1) (store s') = (Raises (future_error broken_promise), None)"
  by (simp add: exec get_def get_future_def)

text \<open>
  C9 fails on the code. Worker 0 has locked the mutex; the owner enters the destructor
  and its first statement writes \<open>stop_\<close> while worker 0 owns the mutex. (The workers and
  the callers do hold the mutex wherever they read or write the queue or the flag:
  \<open>mutual_exclusion\<close>.)
\<close>

theorem destructor_writes_stop_unlocked:
  "\<exists>s s' :: (32 word, unit) pool.
     run [Loop 0] (ThreadPool 1 0) = Some s \<and> mutex s = Some (Worker 0) \<and> \<not> stop s \<and>
     ThreadPool_dtor s = Some s' \<and> mutex s' = Some (Worker 0) \<and> stop s'"
  by (simp add: exec)

text \<open>
  C3 fails on the code, by the defect shown for C2. The same pool of one worker and two
  counting tasks; the worker exits with task 1 in the queue and the destructor runs to
  its return. Both futures are then ready, so \<open>wait\<close> returns on each of them, and two
  tasks were put in the queue; but the counter is 1: task 1 was never invoked, and \<open>get\<close>
  on its future throws \<open>broken_promise\<close>.
\<close>

theorem submitted_task_never_invoked:
  "\<exists>s :: (32 word, unit) pool.
     run [Call 0 fetch_add_1, Enq 0, Enq 0, Enq 0, Enq 0, Enq 0, Enq 0,
          Call 0 fetch_add_1, Enq 0, Enq 0, Enq 0, Enq 0, Enq 0, Enq 0,
          Loop 0, Loop 0, Loop 0, Loop 0, Loop 0,
          Dtor,
          Loop 0, Loop 0, Loop 0, Loop 0,
          Dtor, Dtor, Dtor] (ThreadPool 1 0) = Some s \<and>
     pushed s = [0, 1] \<and>
     wait (get_future 0) (store s) = (Returns (), get_future 0) \<and>
     wait (get_future 1) (store s) = (Returns (), get_future 1) \<and>
     get (get_future 0) (store s) = (Returns (), None) \<and>
     get (get_future 1) (store s) = (Raises (future_error broken_promise), None) \<and>
     map pc (workers s) = [WExit] \<and> owner s = DGone \<and>
     env s = 1"
  by (simp add: exec get_def wait_def get_future_def)

end
